theory Spec2Isabelle
  imports Complex_Main "HOL-Library.Product_Lexorder"
begin

section \<open>Text: characters, classes and the string methods the analyzer calls\<close>

text \<open>
  The analyzer of \<^verbatim>\<open>slow_query_analyzer.py\<close> works on Python \<^verbatim>\<open>str\<close> values. They are
  modelled as \<^typ>\<open>string\<close>; the character classes below are the ones Python uses on the
  ASCII range (text outside ASCII is outside this model, every other character is
  in no class and is its own lower case).
\<close>

definition digits :: string where
  "digits = ''0123456789''"

definition lowercase :: string where
  "lowercase = ''abcdefghijklmnopqrstuvwxyz''"

definition uppercase :: string where
  "uppercase = ''ABCDEFGHIJKLMNOPQRSTUVWXYZ''"

text \<open>\<^verbatim>\<open>\d\<close>, \<^verbatim>\<open>\w\<close> and \<^verbatim>\<open>\s\<close> of module \<^verbatim>\<open>re\<close>; the white space of \<^verbatim>\<open>\s\<close> is also what
  \<^verbatim>\<open>str.strip()\<close> removes: tab, line feed, vertical tab, form feed, carriage return,
  the four separators 0x1C..0x1F and the blank.\<close>

definition is_digit :: "char \<Rightarrow> bool" where
  "is_digit c = (c \<in> set digits)"

definition is_word :: "char \<Rightarrow> bool" where
  "is_word c = (c \<in> set lowercase \<or> c \<in> set uppercase \<or> c \<in> set digits \<or> c = CHR ''_'')"

definition whitespace :: string where
  "whitespace = [CHR 0x09, CHR 0x0A, CHR 0x0B, CHR 0x0C, CHR 0x0D,
                 CHR 0x1C, CHR 0x1D, CHR 0x1E, CHR 0x1F, CHR '' '']"

definition is_space :: "char \<Rightarrow> bool" where
  "is_space c = (c \<in> set whitespace)"

text \<open>\<^verbatim>\<open>str.lower()\<close>.\<close>

definition lower_char :: "char \<Rightarrow> char" where
  "lower_char c = (case map_of (zip uppercase lowercase) c of Some l \<Rightarrow> l | None \<Rightarrow> c)"

definition str_lower :: "string \<Rightarrow> string" where
  "str_lower s = map lower_char s"

text \<open>\<^verbatim>\<open>str.strip()\<close> and \<^verbatim>\<open>str.startswith(p)\<close>.\<close>

definition strip :: "string \<Rightarrow> string" where
  "strip s = rev (dropWhile is_space (rev (dropWhile is_space s)))"

definition startswith :: "string \<Rightarrow> string \<Rightarrow> bool" where
  "startswith s p = (take (length p) s = p)"

text \<open>\<^verbatim>\<open>os.path.basename\<close> on a POSIX path: what follows the last slash.\<close>

definition basename :: "string \<Rightarrow> string" where
  "basename p = rev (takeWhile (\<lambda>c. c \<noteq> CHR ''/'') (rev p))"

text \<open>The exceptions a modelled expression can raise.\<close>

datatype error = ValueError | ZeroDivisionError | IndexError

text \<open>\<^verbatim>\<open>int(time_ms)\<close> on the text of a capture. Python's integers are unbounded; the
  model converts a non-empty run of decimal digits and raises \<^verbatim>\<open>ValueError\<close> on
  any other text (Python also accepts signs, blanks and underscores, which the
  pattern \<^verbatim>\<open>\d+\<close> never captures). The bound some interpreters put on the number
  of digits \<^verbatim>\<open>int\<close> converts (4300 by default from CPython 3.11 on, a setting of
  the interpreter) is not part of the model.\<close>

definition digit_val :: "char \<Rightarrow> int" where
  "digit_val c = int (length (takeWhile (\<lambda>d. d \<noteq> c) digits))"

definition py_int :: "string \<Rightarrow> error + int" where
  "py_int s = (if s \<noteq> [] \<and> list_all is_digit s
               then Inr (foldl (\<lambda>a c. 10 * a + digit_val c) 0 s)
               else Inl ValueError)"

section \<open>The regular expressions of the analyzer\<close>

text \<open>
  Every pattern of the source is a sequence of literals and of quantified character
  classes. \<^verbatim>\<open>Dot\<close> is \<^verbatim>\<open>.\<close>: it matches a line feed only under \<^verbatim>\<open>re.DOTALL\<close>, the flag
  the matcher takes as its first argument.
\<close>

datatype cclass = Digit | Space | Word | Dot | NotChr char

datatype quant = Times nat | Plus | Star | LazyStar

datatype item = Lit string | Rep cclass quant

fun cmatch :: "bool \<Rightarrow> cclass \<Rightarrow> char \<Rightarrow> bool" where
  "cmatch dotall Digit c = is_digit c"
| "cmatch dotall Space c = is_space c"
| "cmatch dotall Word c = is_word c"
| "cmatch dotall Dot c = (dotall \<or> c \<noteq> CHR 0x0A)"
| "cmatch dotall (NotChr x) c = (c \<noteq> x)"

text \<open>The ways of cutting a prefix of the leading run of characters with \<open>P\<close> off a
  text, shortest prefix first.\<close>

fun run_splits :: "(char \<Rightarrow> bool) \<Rightarrow> string \<Rightarrow> (string \<times> string) list" where
  "run_splits P [] = [([], [])]"
| "run_splits P (c # s) =
     ([], c # s) # (if P c then map (\<lambda>(a, b). (c # a, b)) (run_splits P s) else [])"

text \<open>What one item may consume of a text, in the order the backtracking matcher of
  \<^verbatim>\<open>re\<close> tries: a greedy quantifier takes the longest run first, the lazy one the
  shortest.\<close>

fun candidates :: "bool \<Rightarrow> item \<Rightarrow> string \<Rightarrow> (string \<times> string) list" where
  "candidates dotall (Lit l) s =
     (if startswith s l then [(l, drop (length l) s)] else [])"
| "candidates dotall (Rep c (Times n)) s =
     (if n \<le> length (takeWhile (cmatch dotall c) s) then [(take n s, drop n s)] else [])"
| "candidates dotall (Rep c Plus) s = rev (tl (run_splits (cmatch dotall c) s))"
| "candidates dotall (Rep c Star) s = rev (run_splits (cmatch dotall c) s)"
| "candidates dotall (Rep c LazyStar) s = run_splits (cmatch dotall c) s"

primrec first_some :: "('a \<Rightarrow> 'b option) \<Rightarrow> 'a list \<Rightarrow> 'b option" where
  "first_some f [] = None"
| "first_some f (x # xs) = (case f x of Some y \<Rightarrow> Some y | None \<Rightarrow> first_some f xs)"

text \<open>Matching a pattern at the start of a text: the first success in backtracking
  order, as the text each item consumed and the text left over.\<close>

fun match_items :: "bool \<Rightarrow> item list \<Rightarrow> string \<Rightarrow> (string list \<times> string) option" where
  "match_items dotall [] s = Some ([], s)"
| "match_items dotall (it # its) s =
     first_some (\<lambda>(seg, rest).
        case match_items dotall its rest of
          Some (segs, r) \<Rightarrow> Some (seg # segs, r)
        | None \<Rightarrow> None)
       (candidates dotall it s)"

text \<open>\<^verbatim>\<open>re.search\<close>: the match at the leftmost start that has one.\<close>

fun search :: "bool \<Rightarrow> item list \<Rightarrow> string \<Rightarrow> string list option" where
  "search dotall p [] = map_option fst (match_items dotall p [])"
| "search dotall p (c # s) =
     (case match_items dotall p (c # s) of
        Some (segs, r) \<Rightarrow> Some segs
      | None \<Rightarrow> search dotall p s)"

text \<open>\<^verbatim>\<open>re.findall\<close>: the matches from left to right, each search starting where the match
  before ended. (After a match that consumed nothing the scan moves one character on;
  the pattern of the analyzer has literals, so it has no such match.)\<close>

function findall :: "bool \<Rightarrow> item list \<Rightarrow> string \<Rightarrow> string list list" where
  "findall dotall p s =
     (case match_items dotall p s of
        Some (segs, r) \<Rightarrow>
          segs # (if length r < length s then findall dotall p r
                  else (case s of [] \<Rightarrow> [] | c # t \<Rightarrow> findall dotall p t))
      | None \<Rightarrow> (case s of [] \<Rightarrow> [] | c # t \<Rightarrow> findall dotall p t))"
  by pat_completeness auto
termination
  by (relation "measure (\<lambda>(dotall, p, s). length s)") auto

declare findall.simps [simp del]

text \<open>The pattern of \<^verbatim>\<open>_parse_single_file\<close>:
  \<^verbatim>\<open>(\d{4}-\d{2}-\d{2} \d{2}:\d{2}:\d{2}\.\d{3}).*?SlowQuery: (\d+) milliseconds\. SQL: \'.*?wrapping ([^\']*)\'\<close>.
  Its first group is the thirteen items of the time stamp, its second group item 15
  and its third group item 19.\<close>

definition timestamp_items :: "item list" where
  "timestamp_items =
     [Rep Digit (Times 4), Lit ''-'', Rep Digit (Times 2), Lit ''-'', Rep Digit (Times 2),
      Lit '' '', Rep Digit (Times 2), Lit '':'', Rep Digit (Times 2), Lit '':'',
      Rep Digit (Times 2), Lit ''.'', Rep Digit (Times 3)]"

definition slow_query_pattern :: "item list" where
  "slow_query_pattern =
     timestamp_items @
     [Rep Dot LazyStar, Lit ''SlowQuery: '', Rep Digit Plus,
      Lit ('' milliseconds. SQL: '' @ [CHR 0x27]), Rep Dot LazyStar, Lit ''wrapping '',
      Rep (NotChr (CHR 0x27)) Star, Lit [CHR 0x27]]"

definition groups :: "string list \<Rightarrow> string \<times> string \<times> string" where
  "groups segs = (concat (take 13 segs), segs ! 15, segs ! 19)"

text \<open>\<^verbatim>\<open>re.findall(pattern, content, re.DOTALL)\<close>: the tuples of the three groups.\<close>

definition slow_query_matches :: "string \<Rightarrow> (string \<times> string \<times> string) list" where
  "slow_query_matches content = map groups (findall True slow_query_pattern content)"

section \<open>The classifier\<close>

text \<open>The four patterns of \<^verbatim>\<open>_extract_operation_and_table\<close>:
  \<^verbatim>\<open>from\s+(\w+)\<close>, \<^verbatim>\<open>insert\s+into\s+(\w+)\<close>, \<^verbatim>\<open>update\s+(\w+)\<close> and
  \<^verbatim>\<open>delete\s+from\s+(\w+)\<close>. The group of each is its last item.\<close>

definition from_pattern :: "item list" where
  "from_pattern = [Lit ''from'', Rep Space Plus, Rep Word Plus]"

definition insert_pattern :: "item list" where
  "insert_pattern = [Lit ''insert'', Rep Space Plus, Lit ''into'', Rep Space Plus, Rep Word Plus]"

definition update_pattern :: "item list" where
  "update_pattern = [Lit ''update'', Rep Space Plus, Rep Word Plus]"

definition delete_pattern :: "item list" where
  "delete_pattern = [Lit ''delete'', Rep Space Plus, Lit ''from'', Rep Space Plus, Rep Word Plus]"

text \<open>\<^verbatim>\<open>m.group(1) if m else 'unknown'\<close> for \<^verbatim>\<open>m = re.search(p, query_lower)\<close>.\<close>

definition table_after :: "item list \<Rightarrow> string \<Rightarrow> string" where
  "table_after p query_lower =
     (case search False p query_lower of Some segs \<Rightarrow> last segs | None \<Rightarrow> ''unknown'')"

definition extract_operation_and_table :: "string \<Rightarrow> string \<times> string" where
  "extract_operation_and_table query =
     (let query_lower = str_lower query in
      if startswith query_lower ''select'' then (''SELECT'', table_after from_pattern query_lower)
      else if startswith query_lower ''insert'' then (''INSERT'', table_after insert_pattern query_lower)
      else if startswith query_lower ''update'' then (''UPDATE'', table_after update_pattern query_lower)
      else if startswith query_lower ''delete'' then (''DELETE'', table_after delete_pattern query_lower)
      else (''OTHER'', ''unknown''))"

section \<open>Records and the state of a run\<close>

record query_info =
  timestamp :: string
  execution_time :: int
  operation :: string
  table :: string
  query_type :: string
  query :: string
  query_preview :: string
  source_file :: string

text \<open>An entry of \<^verbatim>\<open>self.file_stats\<close>.\<close>

record file_stat =
  fs_queries :: nat
  fs_file_size :: nat
  fs_basename :: string

text \<open>The attributes of \<^verbatim>\<open>SlowQueryAnalyzer\<close> the engine reads and writes
  (\<^verbatim>\<open>temp_files\<close> is never filled). A Python dictionary keeps its keys in insertion
  order, and the rankings iterate over \<^verbatim>\<open>query_groups\<close>: both dictionaries are
  association lists with one entry for a key.\<close>

record analyzer =
  log_input :: string
  file_list :: "string list"
  queries :: "query_info list"
  query_groups :: "(string \<times> query_info list) list"
  file_stats :: "(string \<times> file_stat) list"

definition init :: "string \<Rightarrow> analyzer" where
  "init inp = \<lparr>log_input = inp, file_list = [], queries = [], query_groups = [], file_stats = []\<rparr>"

text \<open>\<^verbatim>\<open>d[k] = v\<close> and \<^verbatim>\<open>d.get(k)\<close> on a dictionary, and \<^verbatim>\<open>d[k].append(q)\<close> on a
  \<^verbatim>\<open>defaultdict(list)\<close>.\<close>

fun dict_set :: "'k \<Rightarrow> 'v \<Rightarrow> ('k \<times> 'v) list \<Rightarrow> ('k \<times> 'v) list" where
  "dict_set k v [] = [(k, v)]"
| "dict_set k v ((k', v') # d) = (if k' = k then (k, v) # d else (k', v') # dict_set k v d)"

definition dict_get :: "('k \<times> 'v) list \<Rightarrow> 'k \<Rightarrow> 'v option" where
  "dict_get d k = map_of d k"

fun group_append :: "'k \<Rightarrow> 'v \<Rightarrow> ('k \<times> 'v list) list \<Rightarrow> ('k \<times> 'v list) list" where
  "group_append k q [] = [(k, [q])]"
| "group_append k q ((k', ms) # d) =
     (if k' = k then (k', ms @ [q]) # d else (k', ms) # group_append k q d)"

section \<open>Extraction and aggregation\<close>

text \<open>The body of the loop of \<^verbatim>\<open>_parse_single_file\<close> up to the record; \<^verbatim>\<open>int(time_ms)\<close>
  is its only expression that can raise, and nothing catches it.\<close>

fun make_query_info :: "string \<Rightarrow> string \<times> string \<times> string \<Rightarrow> error + query_info" where
  "make_query_info file_path (ts, time_ms, q) =
     (let query_clean = strip q;
          (op, tbl) = extract_operation_and_table query_clean
      in case py_int time_ms of
           Inl e \<Rightarrow> Inl e
         | Inr t \<Rightarrow> Inr \<lparr>timestamp = ts, execution_time = t, operation = op, table = tbl,
                        query_type = op @ '' '' @ tbl, query = query_clean,
                        query_preview = (if length query_clean > 200
                                         then take 200 query_clean @ ''...''
                                         else query_clean),
                        source_file = basename file_path\<rparr>)"

definition ingest :: "query_info \<Rightarrow> analyzer \<Rightarrow> analyzer" where
  "ingest qi st = st\<lparr>queries := queries st @ [qi],
                      query_groups := group_append (query_type qi) qi (query_groups st)\<rparr>"

fun ingest_matches ::
  "string \<Rightarrow> (string \<times> string \<times> string) list \<Rightarrow> analyzer \<Rightarrow> nat \<Rightarrow> error + (analyzer \<times> nat)" where
  "ingest_matches file_path [] st file_queries = Inr (st, file_queries)"
| "ingest_matches file_path (m # ms) st file_queries =
     (case make_query_info file_path m of
        Inl e \<Rightarrow> Inl e
      | Inr qi \<Rightarrow> ingest_matches file_path ms (ingest qi st) (file_queries + 1))"

text \<open>\<^verbatim>\<open>_parse_single_file\<close>. \<open>fs\<close> is \<^verbatim>\<open>_read_file_content\<close>: the decoded text of a
  path, empty when the file cannot be read. The result is the new state and the
  number returned.\<close>

definition parse_single_file ::
  "(string \<Rightarrow> string) \<Rightarrow> string \<Rightarrow> analyzer \<Rightarrow> error + (analyzer \<times> nat)" where
  "parse_single_file fs file_path st =
     (let content = fs file_path in
      if content = [] then Inr (st, 0)
      else let matches = slow_query_matches content in
        if matches = [] then Inr (st, 0)
        else case ingest_matches file_path matches st 0 of
               Inl e \<Rightarrow> Inl e
             | Inr (st', file_queries) \<Rightarrow>
                 Inr (st'\<lparr>file_stats :=
                            dict_set file_path
                              \<lparr>fs_queries = file_queries, fs_file_size = length content,
                               fs_basename = basename file_path\<rparr>
                              (file_stats st')\<rparr>,
                      file_queries))"

text \<open>\<^verbatim>\<open>parse_log_files\<close>. \<open>found\<close> is the list \<^verbatim>\<open>_find_repository_files\<close> returned.\<close>

fun parse_files :: "(string \<Rightarrow> string) \<Rightarrow> string list \<Rightarrow> analyzer \<Rightarrow> nat \<Rightarrow> error + (analyzer \<times> nat)" where
  "parse_files fs [] st total_queries = Inr (st, total_queries)"
| "parse_files fs (file_path # rest) st total_queries =
     (case parse_single_file fs file_path st of
        Inl e \<Rightarrow> Inl e
      | Inr (st', queries_in_file) \<Rightarrow> parse_files fs rest st' (total_queries + queries_in_file))"

definition parse_log_files :: "(string \<Rightarrow> string) \<Rightarrow> string list \<Rightarrow> analyzer \<Rightarrow> error + analyzer" where
  "parse_log_files fs found st =
     (let st0 = st\<lparr>file_list := found\<rparr> in
      if found = [] then Inr st0
      else case parse_files fs found st0 0 of
             Inl e \<Rightarrow> Inl e
           | Inr (st', total_queries) \<Rightarrow> Inr st')"

section \<open>Rankings\<close>

text \<open>\<^verbatim>\<open>a / n\<close> on an integer and a length, \<^verbatim>\<open>max\<close> and \<^verbatim>\<open>min\<close> on a list: each raises
  on the empty list. The quotient is the real number (the rounding of Python's
  \<^verbatim>\<open>float\<close> is not modelled).\<close>

definition py_truediv :: "int \<Rightarrow> nat \<Rightarrow> error + real" where
  "py_truediv a n = (if n = 0 then Inl ZeroDivisionError else Inr (real_of_int a / real n))"

definition py_max :: "int list \<Rightarrow> error + int" where
  "py_max xs = (case xs of [] \<Rightarrow> Inl ValueError | x # r \<Rightarrow> Inr (foldl max x r))"

definition py_min :: "int list \<Rightarrow> error + int" where
  "py_min xs = (case xs of [] \<Rightarrow> Inl ValueError | x # r \<Rightarrow> Inr (foldl min x r))"

text \<open>\<^verbatim>\<open>xs[:k]\<close>: a negative \<open>k\<close> counts from the end.\<close>

definition py_slice_to :: "'a list \<Rightarrow> int \<Rightarrow> 'a list" where
  "py_slice_to xs k = (if 0 \<le> k then take (nat k) xs else take (length xs - nat (- k)) xs)"

text \<open>\<^verbatim>\<open>sort(key=f, reverse=True)\<close> and \<^verbatim>\<open>sorted(..., key=f, reverse=True)\<close>: Python's
  sort is stable, also when reversed. The model is the insertion sort that puts an
  element before the first one whose key is not greater.\<close>

fun insort_desc :: "('a \<Rightarrow> 'k::linorder) \<Rightarrow> 'a \<Rightarrow> 'a list \<Rightarrow> 'a list" where
  "insort_desc f x [] = [x]"
| "insort_desc f x (y # ys) = (if f y \<le> f x then x # y # ys else y # insort_desc f x ys)"

definition sort_desc :: "('a \<Rightarrow> 'k::linorder) \<Rightarrow> 'a list \<Rightarrow> 'a list" where
  "sort_desc f xs = foldr (insort_desc f) xs []"

text \<open>An entry of the two rankings of groups.\<close>

record group_summary =
  g_query_type :: string
  hits :: nat
  total_time :: int
  avg_time :: real
  max_time :: int
  min_time :: int
  sample_query :: string
  sample_timestamp :: string

text \<open>The dictionary built in the loop of \<^verbatim>\<open>get_top_k_by_hits\<close> and of
  \<^verbatim>\<open>get_top_k_by_total_time\<close> (the same text in both), its entries evaluated in the
  order of the source.\<close>

fun group_result :: "string \<times> query_info list \<Rightarrow> error + group_summary" where
  "group_result (qt, query_list) =
     (let times = map execution_time query_list in
      case py_truediv (sum_list times) (length times) of
        Inl e \<Rightarrow> Inl e
      | Inr av \<Rightarrow>
     (case py_max times of
        Inl e \<Rightarrow> Inl e
      | Inr mx \<Rightarrow>
     (case py_min times of
        Inl e \<Rightarrow> Inl e
      | Inr mn \<Rightarrow>
     (case query_list of
        [] \<Rightarrow> Inl IndexError
      | q0 # _ \<Rightarrow>
          Inr \<lparr>g_query_type = qt, hits = length query_list, total_time = sum_list times,
               avg_time = av, max_time = mx, min_time = mn,
               sample_query = query_preview q0, sample_timestamp = timestamp q0\<rparr>))))"

fun collect :: "('a \<Rightarrow> error + 'b) \<Rightarrow> 'a list \<Rightarrow> error + 'b list" where
  "collect f [] = Inr []"
| "collect f (x # xs) =
     (case f x of
        Inl e \<Rightarrow> Inl e
      | Inr y \<Rightarrow> (case collect f xs of Inl e \<Rightarrow> Inl e | Inr ys \<Rightarrow> Inr (y # ys)))"



definition get_top_k_by_total_time :: "analyzer \<Rightarrow> int \<Rightarrow> error + group_summary list" where
  "get_top_k_by_total_time st k =
     (case collect group_result (query_groups st) of
        Inl e \<Rightarrow> Inl e
      | Inr results \<Rightarrow> Inr (py_slice_to (sort_desc total_time results) k))"

section \<open>Statistics\<close>

record source_entry =
  se_queries :: nat
  se_file_size :: nat

record statistics =
  total_slow_queries :: nat
  unique_query_types :: nat
  files_processed :: nat
  source_files :: "(string \<times> source_entry) list"
  total_execution_time :: int
  average_execution_time :: real
  max_execution_time :: int
  min_execution_time :: int
  analysis_timestamp :: string

text \<open>The loop of \<^verbatim>\<open>get_statistics\<close> over \<^verbatim>\<open>self.file_stats.items()\<close>.\<close>

fun build_source_files ::
  "(string \<times> file_stat) list \<Rightarrow> (string \<times> source_entry) list \<Rightarrow> (string \<times> source_entry) list" where
  "build_source_files [] sf = sf"
| "build_source_files ((file_path, stats) # rest) sf =
     build_source_files rest
       (dict_set (fs_basename stats)
          \<lparr>se_queries = fs_queries stats, se_file_size = fs_file_size stats\<rparr> sf)"

text \<open>\<^verbatim>\<open>get_statistics\<close>: \<open>None\<close> is the empty dictionary \<^verbatim>\<open>{}\<close>; \<open>now\<close> is
  \<^verbatim>\<open>datetime.now().isoformat()\<close>.\<close>

definition get_statistics :: "string \<Rightarrow> analyzer \<Rightarrow> error + statistics option" where
  "get_statistics now st =
     (if queries st = [] then Inr None
      else let times = map execution_time (queries st);
               sf = build_source_files (file_stats st) []
        in case py_truediv (sum_list times) (length times) of
             Inl e \<Rightarrow> Inl e
           | Inr av \<Rightarrow>
          (case py_max times of
             Inl e \<Rightarrow> Inl e
           | Inr mx \<Rightarrow>
          (case py_min times of
             Inl e \<Rightarrow> Inl e
           | Inr mn \<Rightarrow>
               Inr (Some \<lparr>total_slow_queries = length (queries st),
                          unique_query_types = length (query_groups st),
                          files_processed = length (file_list st),
                          source_files = sf,
                          total_execution_time = sum_list times,
                          average_execution_time = av,
                          max_execution_time = mx,
                          min_execution_time = mn,
                          analysis_timestamp = now\<rparr>))))"

section \<open>Notions used in the statements\<close>

text \<open>What a single item of a pattern may consume: the declarative reading of the
  quantifiers, against which the backtracking matcher is checked.\<close>

fun item_ok :: "bool \<Rightarrow> item \<Rightarrow> string \<Rightarrow> bool" where
  "item_ok dotall (Lit l) seg = (seg = l)"
| "item_ok dotall (Rep c (Times n)) seg = (length seg = n \<and> list_all (cmatch dotall c) seg)"
| "item_ok dotall (Rep c Plus) seg = (seg \<noteq> [] \<and> list_all (cmatch dotall c) seg)"
| "item_ok dotall (Rep c Star) seg = list_all (cmatch dotall c) seg"
| "item_ok dotall (Rep c LazyStar) seg = list_all (cmatch dotall c) seg"

text \<open>\<^verbatim>\<open>sub in s\<close> on strings.\<close>

fun contains :: "string \<Rightarrow> string \<Rightarrow> bool" where
  "contains [] sub = (sub = [])"
| "contains (c # s) sub = (startswith (c # s) sub \<or> contains s sub)"

text \<open>The entry \<^verbatim>\<open>_parse_single_file\<close> stores for a path that has matches.\<close>

definition file_entry :: "(string \<Rightarrow> string) \<Rightarrow> string \<Rightarrow> file_stat" where
  "file_entry fs p = \<lparr>fs_queries = length (slow_query_matches (fs p)),
                       fs_file_size = length (fs p), fs_basename = basename p\<rparr>"

text \<open>The entry of the source-file breakdown made from an entry of \<^verbatim>\<open>file_stats\<close>.\<close>

definition source_entry_of :: "file_stat \<Rightarrow> source_entry" where
  "source_entry_of e = \<lparr>se_queries = fs_queries e, se_file_size = fs_file_size e\<rparr>"











section \<open>Example inputs\<close>

text \<open>The log line of the extractor's boundary example, a record, and a small run.\<close>

definition example_log :: string where
  "example_log =
     ''2024-01-01 10:00:00.123 ... SlowQuery: 1500 milliseconds. SQL: '' @ [CHR 0x27] @
     ''exec wrapping select * from foo'' @ [CHR 0x27]"

definition example_record :: query_info where
  "example_record =
     \<lparr>timestamp = ''2024-01-01 10:00:00.123'', execution_time = 1500, operation = ''SELECT'',
      table = ''foo'', query_type = ''SELECT foo'', query = ''select * from foo'',
      query_preview = ''select * from foo'', source_file = ''repository.log''\<rparr>"

text \<open>A run over three files: two with one entry each and the same base name (the
  second entry spans three lines and has blanks around its statement), and one
  empty file.\<close>

definition example_log2 :: string where
  "example_log2 =
     ''2024-01-02 11:30:00.000 WARN'' @ [CHR 0x0A] @
     ''SlowQuery: 20 milliseconds. SQL: '' @ [CHR 0x27] @ ''x'' @ [CHR 0x0A] @
     ''wrapping  update bar set a=1 '' @ [CHR 0x27]"

definition example_files :: "string \<Rightarrow> string" where
  "example_files p =
     (if p = ''a/repository.log'' then example_log
      else if p = ''b/repository.log'' then example_log2
      else [])"

definition example_paths :: "string list" where
  "example_paths = [''a/repository.log'', ''b/repository.log'', ''c/empty.log'']"

definition example_record2 :: query_info where
  "example_record2 =
     \<lparr>timestamp = ''2024-01-02 11:30:00.000'', execution_time = 20, operation = ''UPDATE'',
      table = ''bar'', query_type = ''UPDATE bar'', query = ''update bar set a=1'',
      query_preview = ''update bar set a=1'', source_file = ''repository.log''\<rparr>"

definition example_state :: analyzer where
  "example_state =
     \<lparr>log_input = ''logs'', file_list = example_paths,
      queries = [example_record, example_record2],
      query_groups = [(''SELECT foo'', [example_record]), (''UPDATE bar'', [example_record2])],
      file_stats =
        [(''a/repository.log'',
          \<lparr>fs_queries = 1, fs_file_size = 96, fs_basename = ''repository.log''\<rparr>),
         (''b/repository.log'',
          \<lparr>fs_queries = 1, fs_file_size = 95, fs_basename = ''repository.log''\<rparr>)]\<rparr>"

definition example_statistics :: statistics where
  "example_statistics =
     \<lparr>total_slow_queries = 2, unique_query_types = 2, files_processed = 3,
      source_files = [(''repository.log'', \<lparr>se_queries = 1, se_file_size = 95\<rparr>)],
      total_execution_time = 1520, average_execution_time = 760,
      max_execution_time = 1500, min_execution_time = 20,
      analysis_timestamp = ''now''\<rparr>"

text \<open>The two rankings of groups of the example run.\<close>

definition example_top :: "group_summary list" where
  "example_top =
     [\<lparr>g_query_type = ''SELECT foo'', hits = 1, total_time = 1500, avg_time = 1500,
       max_time = 1500, min_time = 1500, sample_query = ''select * from foo'',
       sample_timestamp = ''2024-01-01 10:00:00.123''\<rparr>,
      \<lparr>g_query_type = ''UPDATE bar'', hits = 1, total_time = 20, avg_time = 20,
       max_time = 20, min_time = 20, sample_query = ''update bar set a=1'',
       sample_timestamp = ''2024-01-02 11:30:00.000''\<rparr>]"

section \<open>Dictionaries and the frame of ingestion\<close>

lemma dict_set_map_fst:
  "map fst (dict_set k v d) = (if k \<in> set (map fst d) then map fst d else map fst d @ [k])"
proof (induction d)
  case Nil
  show ?case by simp
next
  case (Cons e d)
  obtain k' v' where e: "e = (k', v')" by (cases e)
  show ?case using Cons.IH by (simp add: e)
qed

lemma dict_set_keys: "fst ` set (dict_set k v d) = insert k (fst ` set d)"
proof -
  have "set (map fst (dict_set k v d)) = insert k (set (map fst d))"
    unfolding dict_set_map_fst by (simp add: insert_absorb)
  then show ?thesis by simp
qed

lemma dict_get_dict_set:
  "dict_get (dict_set k v d) k' = (if k' = k then Some v else dict_get d k')"
  by (induction d) (auto simp: dict_get_def)

lemma dict_get_None_iff: "dict_get d k = None \<longleftrightarrow> k \<notin> fst ` set d"
  by (simp add: dict_get_def map_of_eq_None_iff)

lemma ingest_frame [simp]:
  "file_stats (ingest qi st) = file_stats st"
  "file_list (ingest qi st) = file_list st"
  "log_input (ingest qi st) = log_input st"
  "queries (ingest qi st) = queries st @ [qi]"
  "query_groups (ingest qi st) = group_append (query_type qi) qi (query_groups st)"
  by (simp_all add: ingest_def)

lemma ingest_matches_Inr:
  "ingest_matches p ms st n = Inr (st', n') \<Longrightarrow>
     \<exists>qs. collect (make_query_info p) ms = Inr qs \<and> st' = foldl (\<lambda>s q. ingest q s) st qs
          \<and> n' = n + length ms \<and> length qs = length ms"
proof (induction ms arbitrary: st n)
  case Nil
  then show ?case by simp
next
  case (Cons m ms)
  then obtain qi where qi: "make_query_info p m = Inr qi"
    by (auto split: sum.splits)
  with Cons.prems have "ingest_matches p ms (ingest qi st) (n + 1) = Inr (st', n')"
    by simp
  from Cons.IH [OF this] qi show ?case
    by auto
qed

lemma foldl_ingest_frame:
  "file_stats (foldl (\<lambda>s q. ingest q s) st qs) = file_stats st"
  "file_list (foldl (\<lambda>s q. ingest q s) st qs) = file_list st"
  "queries (foldl (\<lambda>s q. ingest q s) st qs) = queries st @ qs"
  by (induction qs arbitrary: st) simp_all

section \<open>The matcher against the declarative reading of a pattern\<close>

lemma startswith_iff: "startswith s p \<longleftrightarrow> (\<exists>r. s = p @ r)"
proof
  assume "startswith s p"
  then have "s = p @ drop (length p) s"
    unfolding startswith_def by (metis append_take_drop_id)
  then show "\<exists>r. s = p @ r" ..
next
  assume "\<exists>r. s = p @ r"
  then show "startswith s p" by (auto simp: startswith_def)
qed

lemma contains_iff: "contains s sub \<longleftrightarrow> (\<exists>a b. s = a @ sub @ b)"
proof (induction s)
  case Nil
  show ?case by auto
next
  case (Cons c s)
  show ?case
  proof
    assume "contains (c # s) sub"
    then consider "startswith (c # s) sub" | "contains s sub" by auto
    then show "\<exists>a b. c # s = a @ sub @ b"
    proof cases
      case 1
      then obtain r where "c # s = sub @ r" unfolding startswith_iff ..
      then have "c # s = [] @ sub @ r" by simp
      then show ?thesis by blast
    next
      case 2
      then obtain a b where "s = a @ sub @ b" using Cons.IH by blast
      then have "c # s = (c # a) @ sub @ b" by simp
      then show ?thesis by blast
    qed
  next
    assume "\<exists>a b. c # s = a @ sub @ b"
    then obtain a b where ab: "c # s = a @ sub @ b" by blast
    show "contains (c # s) sub"
    proof (cases a)
      case Nil
      with ab have "startswith (c # s) sub" unfolding startswith_iff by auto
      then show ?thesis by simp
    next
      case (Cons x a')
      with ab have "s = a' @ sub @ b" by simp
      then have "contains s sub" using Cons.IH by blast
      then show ?thesis by simp
    qed
  qed
qed

lemma run_splits_iff: "(a, b) \<in> set (run_splits P s) \<longleftrightarrow> s = a @ b \<and> list_all P a"
proof (induction s arbitrary: a)
  case Nil
  show ?case by auto
next
  case (Cons c s)
  show ?case
  proof (cases a)
    case Nil
    then show ?thesis by auto
  next
    case (Cons x a')
    then show ?thesis using Cons.IH [of a'] by auto
  qed
qed

lemma run_splits_tl_iff:
  "(a, b) \<in> set (tl (run_splits P s)) \<longleftrightarrow> a \<noteq> [] \<and> s = a @ b \<and> list_all P a"
proof (cases s)
  case Nil
  then show ?thesis by auto
next
  case (Cons c s')
  have "(a, b) \<in> set (tl (run_splits P s)) \<longleftrightarrow>
        P c \<and> (\<exists>a'. a = c # a' \<and> (a', b) \<in> set (run_splits P s'))"
    unfolding Cons by auto
  also have "\<dots> \<longleftrightarrow> a \<noteq> [] \<and> s = a @ b \<and> list_all P a"
    unfolding run_splits_iff Cons by (cases a) auto
  finally show ?thesis .
qed

lemma length_takeWhile_ge:
  "n \<le> length (takeWhile P s) \<longleftrightarrow> n \<le> length s \<and> list_all P (take n s)"
proof (induction s arbitrary: n)
  case Nil
  show ?case by simp
next
  case (Cons c s)
  show ?case using Cons.IH by (cases n) auto
qed

lemma candidates_iff:
  "(seg, rest) \<in> set (candidates dotall it s) \<longleftrightarrow> s = seg @ rest \<and> item_ok dotall it seg"
proof (cases it)
  case (Lit l)
  then show ?thesis by (auto simp: startswith_iff)
next
  case (Rep c q)
  show ?thesis
  proof (cases q)
    case (Times n)
    have "(seg, rest) \<in> set (candidates dotall it s) \<longleftrightarrow>
          n \<le> length s \<and> list_all (cmatch dotall c) (take n s) \<and> seg = take n s \<and> rest = drop n s"
      unfolding Rep Times by (auto simp: length_takeWhile_ge)
    also have "\<dots> \<longleftrightarrow> s = seg @ rest \<and> length seg = n \<and> list_all (cmatch dotall c) seg"
      by (auto simp: min_def)
    finally show ?thesis unfolding Rep Times by simp
  next
    case Plus
    then show ?thesis unfolding Rep by (auto simp: run_splits_tl_iff)
  next
    case Star
    then show ?thesis unfolding Rep by (auto simp: run_splits_iff)
  next
    case LazyStar
    then show ?thesis unfolding Rep by (auto simp: run_splits_iff)
  qed
qed

lemma first_some_SomeD: "first_some f xs = Some y \<Longrightarrow> \<exists>x\<in>set xs. f x = Some y"
  by (induction xs) (auto split: option.splits)

lemma first_some_None_iff: "first_some f xs = None \<longleftrightarrow> (\<forall>x\<in>set xs. f x = None)"
  by (induction xs) (auto split: option.splits)

lemma match_items_sound:
  "match_items dotall its s = Some (segs, r) \<Longrightarrow>
     s = concat segs @ r \<and> list_all2 (item_ok dotall) its segs"
proof (induction its arbitrary: s segs)
  case Nil
  then show ?case by simp
next
  case (Cons it its)
  from Cons.prems obtain seg rest where
    cand: "(seg, rest) \<in> set (candidates dotall it s)" and
    m: "(case match_items dotall its rest of Some (segs', r') \<Rightarrow> Some (seg # segs', r') | None \<Rightarrow> None)
          = Some (segs, r)"
    by (auto dest!: first_some_SomeD)
  from m obtain segs' where m': "match_items dotall its rest = Some (segs', r)" and segs: "segs = seg # segs'"
    by (auto split: option.splits)
  from Cons.IH [OF m'] cand show ?case
    unfolding segs candidates_iff by simp
qed

lemma match_items_complete:
  "list_all2 (item_ok dotall) its segs \<Longrightarrow> match_items dotall its (concat segs @ r) \<noteq> None"
proof (induction its arbitrary: segs)
  case Nil
  then show ?case by simp
next
  case (Cons it its)
  then obtain seg segs' where segs: "segs = seg # segs'" and ok: "item_ok dotall it seg"
    and rest: "list_all2 (item_ok dotall) its segs'"
    by (auto simp: list_all2_Cons1)
  have cand: "(seg, concat segs' @ r) \<in> set (candidates dotall it (concat segs @ r))"
    unfolding candidates_iff segs using ok by simp
  from Cons.IH [OF rest] obtain x where "match_items dotall its (concat segs' @ r) = Some x"
    by auto
  with cand show ?case
    by (auto simp: first_some_None_iff split: option.splits prod.splits intro!: bexI [OF _ cand])
qed

lemma findall_None:
  "match_items dotall p s = None \<Longrightarrow>
     findall dotall p s = (case s of [] \<Rightarrow> [] | c # t \<Rightarrow> findall dotall p t)"
  by (subst findall.simps) simp

lemma findall_Some:
  "match_items dotall p s = Some (segs, r) \<Longrightarrow>
     findall dotall p s =
       segs # (if length r < length s then findall dotall p r
               else (case s of [] \<Rightarrow> [] | c # t \<Rightarrow> findall dotall p t))"
  by (subst findall.simps) simp

lemma findall_elems:
  "segs \<in> set (findall dotall p s) \<Longrightarrow>
     list_all2 (item_ok dotall) p segs \<and> (\<exists>a r. s = a @ concat segs @ r)"
proof (induction dotall p s rule: findall.induct)
  case (1 dotall p s)
  show ?case
  proof (cases "match_items dotall p s")
    case None
    show ?thesis
    proof (cases s)
      case Nil
      with None "1.prems" show ?thesis by (simp add: findall_None)
    next
      case (Cons c t)
      with None "1.prems" have "segs \<in> set (findall dotall p t)"
        by (simp add: findall_None)
      from "1.IH"(1) [OF None Cons this]
      obtain a r where "list_all2 (item_ok dotall) p segs" "t = a @ concat segs @ r" by blast
      then have "list_all2 (item_ok dotall) p segs" "s = (c # a) @ concat segs @ r"
        using Cons by simp_all
      then show ?thesis by blast
    qed
  next
    case (Some x)
    obtain segs0 r0 where x: "x = (segs0, r0)" by (cases x)
    note m = Some [unfolded x]
    from match_items_sound [OF m] have snd: "s = concat segs0 @ r0"
      and ok: "list_all2 (item_ok dotall) p segs0" by simp_all
    from "1.prems" consider "segs = segs0"
      | "length r0 < length s" "segs \<in> set (findall dotall p r0)"
      | c t where "\<not> length r0 < length s" "s = c # t" "segs \<in> set (findall dotall p t)"
      by (auto simp: findall_Some [OF m] split: if_splits list.splits)
    then show ?thesis
    proof cases
      case 1
      with snd ok have "s = [] @ concat segs @ r0" by simp
      with ok 1 show ?thesis by blast
    next
      case 2
      from "1.IH"(2) [OF Some x [symmetric] 2]
      obtain a r where "list_all2 (item_ok dotall) p segs" "r0 = a @ concat segs @ r" by blast
      then have "list_all2 (item_ok dotall) p segs" "s = (concat segs0 @ a) @ concat segs @ r"
        using snd by simp_all
      then show ?thesis by blast
    next
      case 3
      from "1.IH"(3) [OF Some x [symmetric] 3]
      obtain a r where "list_all2 (item_ok dotall) p segs" "t = a @ concat segs @ r" by blast
      then have "list_all2 (item_ok dotall) p segs" "s = (c # a) @ concat segs @ r"
        using 3 by simp_all
      then show ?thesis by blast
    qed
  qed
qed

lemma findall_Nil_iff:
  "findall dotall p s = [] \<longleftrightarrow> (\<forall>a t. s = a @ t \<longrightarrow> match_items dotall p t = None)"
proof (induction s)
  case Nil
  show ?case
    by (cases "match_items dotall p []") (auto simp: findall_None findall_Some)
next
  case (Cons c s)
  show ?case
  proof (cases "match_items dotall p (c # s)")
    case None
    have "(\<forall>a t. c # s = a @ t \<longrightarrow> match_items dotall p t = None) \<longleftrightarrow>
          (\<forall>a t. s = a @ t \<longrightarrow> match_items dotall p t = None)"
      using None by (auto simp: Cons_eq_append_conv)
    then show ?thesis using Cons.IH None by (simp add: findall_None)
  next
    case (Some x)
    obtain segs0 r0 where x: "x = (segs0, r0)" by (cases x)
    have "findall dotall p (c # s) \<noteq> []"
      by (simp add: findall_Some [OF Some [unfolded x]])
    moreover have "\<not> (\<forall>a t. c # s = a @ t \<longrightarrow> match_items dotall p t = None)"
      using Some by (auto intro: exI [of _ "[]"])
    ultimately show ?thesis by simp
  qed
qed

section \<open>What the pattern of the extractor captures\<close>

lemma length_slow_query_pattern: "length slow_query_pattern = 21"
  by (simp add: slow_query_pattern_def timestamp_items_def)

lemma slow_query_pattern_nth:
  "slow_query_pattern ! 14 = Lit ''SlowQuery: ''"
  "slow_query_pattern ! 15 = Rep Digit Plus"
  "slow_query_pattern ! 18 = Lit ''wrapping ''"
  "slow_query_pattern ! 19 = Rep (NotChr (CHR 0x27)) Star"
  "slow_query_pattern ! 20 = Lit [CHR 0x27]"
  by (simp_all add: slow_query_pattern_def timestamp_items_def)

lemma slow_query_segs:
  assumes "list_all2 (item_ok True) slow_query_pattern segs"
  shows "length segs = 21"
    and "segs ! 14 = ''SlowQuery: ''"
    and "segs ! 15 \<noteq> []" and "list_all is_digit (segs ! 15)"
    and "segs ! 18 = ''wrapping ''"
    and "list_all (\<lambda>c. c \<noteq> CHR 0x27) (segs ! 19)"
    and "segs ! 20 = [CHR 0x27]"
proof -
  show len: "length segs = 21"
    using list_all2_lengthD [OF assms] by (simp add: length_slow_query_pattern)
  have nth: "item_ok True (slow_query_pattern ! i) (segs ! i)" if "i < 21" for i
    using list_all2_nthD [OF assms, of i] that by (simp add: length_slow_query_pattern)
  show "segs ! 14 = ''SlowQuery: ''"
    using nth [of 14] by (simp add: slow_query_pattern_nth)
  show "segs ! 15 \<noteq> []" "list_all is_digit (segs ! 15)"
    using nth [of 15] by (simp_all add: slow_query_pattern_nth list_all_iff)
  show "segs ! 18 = ''wrapping ''"
    using nth [of 18] by (simp add: slow_query_pattern_nth)
  show "list_all (\<lambda>c. c \<noteq> CHR 0x27) (segs ! 19)"
    using nth [of 19] by (simp add: slow_query_pattern_nth list_all_iff)
  show "segs ! 20 = [CHR 0x27]"
    using nth [of 20] by (simp add: slow_query_pattern_nth)
qed

lemma concat_split_nth:
  "i < length xss \<Longrightarrow> concat xss = concat (take i xss) @ xss ! i @ concat (drop (Suc i) xss)"
  by (subst id_take_nth_drop [of i xss]) simp_all

lemma slow_query_segs_marker:
  assumes "list_all2 (item_ok True) slow_query_pattern segs"
  shows "contains (concat segs) ''SlowQuery:''"
proof -
  have "concat segs = concat (take 14 segs) @ ''SlowQuery: '' @ concat (drop 15 segs)"
    using concat_split_nth [of 14 segs] slow_query_segs(1,2) [OF assms] by simp
  then have "concat segs = concat (take 14 segs) @ ''SlowQuery:'' @ ('' '' @ concat (drop 15 segs))"
    by simp
  then show ?thesis unfolding contains_iff by blast
qed

lemma contains_append: "contains s sub \<Longrightarrow> contains (a @ s @ b) sub"
proof -
  assume "contains s sub"
  then obtain x y where "s = x @ sub @ y" unfolding contains_iff by blast
  then have "a @ s @ b = (a @ x) @ sub @ (y @ b)" by simp
  then show ?thesis unfolding contains_iff by blast
qed

lemma findall_marker:
  assumes "segs \<in> set (findall True slow_query_pattern content)"
  shows "contains content ''SlowQuery:''"
proof -
  from findall_elems [OF assms] obtain a r where
    ok: "list_all2 (item_ok True) slow_query_pattern segs" and c: "content = a @ concat segs @ r"
    by blast
  show ?thesis unfolding c by (rule contains_append) (rule slow_query_segs_marker [OF ok])
qed

lemma no_marker_no_matches:
  "\<not> contains content ''SlowQuery:'' \<Longrightarrow> slow_query_matches content = []"
proof -
  assume n: "\<not> contains content ''SlowQuery:''"
  have "findall True slow_query_pattern content = []"
  proof (cases "findall True slow_query_pattern content")
    case Nil
    then show ?thesis .
  next
    case (Cons segs rest)
    then have "segs \<in> set (findall True slow_query_pattern content)" by simp
    from findall_marker [OF this] n show ?thesis by simp
  qed
  then show ?thesis by (simp add: slow_query_matches_def)
qed

lemma slow_query_matches_Nil [simp]: "slow_query_matches [] = []"
  by (rule no_marker_no_matches) simp

lemma foldl_digits_nonneg:
  "0 \<le> a \<Longrightarrow> 0 \<le> foldl (\<lambda>a c. 10 * a + digit_val c) a s"
  by (induction s arbitrary: a) (simp_all add: digit_val_def)

lemma py_int_digits:
  "s \<noteq> [] \<Longrightarrow> list_all is_digit s \<Longrightarrow> \<exists>n\<ge>0. py_int s = Inr n"
  by (simp add: py_int_def foldl_digits_nonneg)

lemma slow_query_matches_digits:
  assumes "(ts, ms, q) \<in> set (slow_query_matches content)"
  shows "ms \<noteq> [] \<and> list_all is_digit ms \<and> list_all (\<lambda>c. c \<noteq> CHR 0x27) q"
proof -
  from assms obtain segs where s: "segs \<in> set (findall True slow_query_pattern content)"
    and g: "groups segs = (ts, ms, q)"
    by (auto simp: slow_query_matches_def)
  from findall_elems [OF s] have ok: "list_all2 (item_ok True) slow_query_pattern segs" by simp
  from g have "ms = segs ! 15" "q = segs ! 19" by (simp_all add: groups_def)
  with slow_query_segs [OF ok] show ?thesis by simp
qed

lemma make_query_info_Inr:
  assumes "ms \<noteq> []" "list_all is_digit ms"
  shows "\<exists>qi. make_query_info p (ts, ms, q) = Inr qi"
proof -
  from py_int_digits [OF assms] obtain n where "py_int ms = Inr n" by blast
  then show ?thesis by (simp add: Let_def split: prod.splits)
qed

lemma collect_total:
  "(\<forall>x\<in>set xs. \<exists>y. f x = Inr y) \<Longrightarrow> \<exists>ys. collect f xs = Inr ys"
  by (induction xs) auto

lemma collect_Inr_all2:
  "collect f xs = Inr ys \<Longrightarrow> list_all2 (\<lambda>x y. f x = Inr y) xs ys"
  by (induction xs arbitrary: ys) (auto split: sum.splits)

lemma collect_records:
  "\<exists>qs. collect (make_query_info p) (slow_query_matches content) = Inr qs"
proof (rule collect_total, rule ballI)
  fix m assume m: "m \<in> set (slow_query_matches content)"
  obtain ts ms q where mm: "m = (ts, ms, q)" by (cases m)
  from slow_query_matches_digits [OF m [unfolded mm]] make_query_info_Inr [of ms p ts q]
  show "\<exists>y. make_query_info p m = Inr y" unfolding mm by blast
qed

lemma ingest_matches_eq:
  "ingest_matches p ms st n =
     (case collect (make_query_info p) ms of
        Inl e \<Rightarrow> Inl e
      | Inr qs \<Rightarrow> Inr (foldl (\<lambda>s q. ingest q s) st qs, n + length ms))"
  by (induction ms arbitrary: st n) (auto split: sum.splits)

section \<open>Extraction never raises\<close>

lemma collect_length: "collect f xs = Inr ys \<Longrightarrow> length ys = length xs"
  by (drule collect_Inr_all2) (rule list_all2_lengthD [symmetric])

lemma parse_single_file_eq:
  "\<exists>qs. collect (make_query_info p) (slow_query_matches (fs p)) = Inr qs \<and>
        parse_single_file fs p st =
          Inr (if slow_query_matches (fs p) = [] then st
               else (foldl (\<lambda>s q. ingest q s) st qs)
                      \<lparr>file_stats := dict_set p (file_entry fs p) (file_stats st)\<rparr>,
               length qs)"
proof -
  obtain qs where qs: "collect (make_query_info p) (slow_query_matches (fs p)) = Inr qs"
    using collect_records by blast
  have len: "length qs = length (slow_query_matches (fs p))"
    by (rule collect_length [OF qs])
  have "parse_single_file fs p st =
          Inr (if slow_query_matches (fs p) = [] then st
               else (foldl (\<lambda>s q. ingest q s) st qs)
                      \<lparr>file_stats := dict_set p (file_entry fs p) (file_stats st)\<rparr>,
               length qs)"
  proof (cases "fs p = []")
    case True
    then show ?thesis using len by (simp add: parse_single_file_def)
  next
    case False
    then show ?thesis using len qs
      by (simp add: parse_single_file_def Let_def ingest_matches_eq file_entry_def
          foldl_ingest_frame)
  qed
  with qs show ?thesis by blast
qed




lemma example_log_matches:
  "slow_query_matches example_log = [(''2024-01-01 10:00:00.123'', ''1500'', ''select * from foo'')]"
  unfolding example_log_def by code_simp


section \<open>The example run, evaluated\<close>

lemma example_log2_matches:
  "slow_query_matches example_log2 =
     [(''2024-01-02 11:30:00.000'', ''20'', '' update bar set a=1 '')]"
  unfolding example_log2_def by code_simp

lemma example_files_run:
  "parse_log_files example_files example_paths (init ''logs'') = Inr example_state"
  unfolding example_paths_def example_files_def example_log_def example_log2_def
    example_record_def example_record2_def example_state_def
  by code_simp

lemma example_state_statistics:
  "get_statistics ''now'' example_state =
     Inr (Some example_statistics)"
  by (simp add: get_statistics_def example_statistics_def example_state_def example_record_def example_record2_def
      example_paths_def py_truediv_def py_max_def py_min_def Let_def)

section \<open>Files, their statistics entries and the source-file breakdown\<close>

lemma dict_set_subset: "set (dict_set k v d) \<subseteq> insert (k, v) (set d)"
proof (induction d)
  case Nil
  show ?case by simp
next
  case (Cons e d)
  obtain k' v' where e: "e = (k', v')" by (cases e)
  show ?case using Cons.IH unfolding e by auto
qed

lemma dict_set_fresh: "k \<notin> fst ` set d \<Longrightarrow> dict_set k v d = d @ [(k, v)]"
proof (induction d)
  case Nil
  show ?case by simp
next
  case (Cons e d)
  obtain k' v' where e: "e = (k', v')" by (cases e)
  show ?case using Cons unfolding e by auto
qed

lemma foldl_ingest_groups:
  "query_groups (foldl (\<lambda>s q. ingest q s) st qs) =
     foldl (\<lambda>d q. group_append (query_type q) q d) (query_groups st) qs"
  by (induction qs arbitrary: st) simp_all

lemma parse_single_file_fields:
  assumes "parse_single_file fs p st = Inr (st1, n)"
  shows "file_list st1 = file_list st"
    and "file_stats st1 = (if slow_query_matches (fs p) = [] then file_stats st
                           else dict_set p (file_entry fs p) (file_stats st))"
    and "n = length (slow_query_matches (fs p))"
    and "\<exists>qs. collect (make_query_info p) (slow_query_matches (fs p)) = Inr qs \<and>
              queries st1 = queries st @ qs \<and>
              query_groups st1 =
                foldl (\<lambda>d q. group_append (query_type q) q d) (query_groups st) qs"
proof -
  from parse_single_file_eq [of p fs st] obtain qs where
    qs: "collect (make_query_info p) (slow_query_matches (fs p)) = Inr qs" and
    eq: "parse_single_file fs p st =
          Inr (if slow_query_matches (fs p) = [] then st
               else (foldl (\<lambda>s q. ingest q s) st qs)
                      \<lparr>file_stats := dict_set p (file_entry fs p) (file_stats st)\<rparr>,
               length qs)"
    by blast
  have len: "length qs = length (slow_query_matches (fs p))" by (rule collect_length [OF qs])
  from eq assms have st1: "st1 = (if slow_query_matches (fs p) = [] then st
               else (foldl (\<lambda>s q. ingest q s) st qs)
                      \<lparr>file_stats := dict_set p (file_entry fs p) (file_stats st)\<rparr>)"
    and n: "n = length qs" by simp_all
  show "file_list st1 = file_list st" by (simp add: st1 foldl_ingest_frame)
  show "file_stats st1 = (if slow_query_matches (fs p) = [] then file_stats st
                           else dict_set p (file_entry fs p) (file_stats st))"
    by (simp add: st1)
  show "n = length (slow_query_matches (fs p))" by (simp add: n len)
  have "queries st1 = queries st @ qs \<and>
        query_groups st1 = foldl (\<lambda>d q. group_append (query_type q) q d) (query_groups st) qs"
  proof (cases "slow_query_matches (fs p) = []")
    case True
    with len have "qs = []" by simp
    with True show ?thesis by (simp add: st1)
  next
    case False
    then show ?thesis by (simp add: st1 foldl_ingest_frame foldl_ingest_groups)
  qed
  with qs show "\<exists>qs. collect (make_query_info p) (slow_query_matches (fs p)) = Inr qs \<and>
              queries st1 = queries st @ qs \<and>
              query_groups st1 =
                foldl (\<lambda>d q. group_append (query_type q) q d) (query_groups st) qs"
    by blast
qed

lemma parse_files_file_list:
  "parse_files fs found st t = Inr (st', t') \<Longrightarrow> file_list st' = file_list st"
proof (induction found arbitrary: st t)
  case Nil
  then show ?case by simp
next
  case (Cons p found)
  from Cons.prems obtain st1 n1 where
    one: "parse_single_file fs p st = Inr (st1, n1)" and
    rest: "parse_files fs found st1 (t + n1) = Inr (st', t')"
    by (auto split: sum.splits)
  from Cons.IH [OF rest] parse_single_file_fields(1) [OF one] show ?case by simp
qed

lemma parse_files_entries:
  "parse_files fs found st t = Inr (st', t') \<Longrightarrow>
     set (file_stats st') \<subseteq>
       set (file_stats st) \<union>
       {(p, file_entry fs p) | p. p \<in> set found \<and> slow_query_matches (fs p) \<noteq> []}"
proof (induction found arbitrary: st t)
  case Nil
  then show ?case by simp
next
  case (Cons p found)
  from Cons.prems obtain st1 n1 where
    one: "parse_single_file fs p st = Inr (st1, n1)" and
    rest: "parse_files fs found st1 (t + n1) = Inr (st', t')"
    by (auto split: sum.splits)
  have "set (file_stats st1) \<subseteq>
          set (file_stats st) \<union> {(p', file_entry fs p') | p'. p' = p \<and> slow_query_matches (fs p') \<noteq> []}"
    using parse_single_file_fields(2) [OF one] dict_set_subset [of p "file_entry fs p" "file_stats st"]
    by (auto split: if_splits)
  with Cons.IH [OF rest] show ?case by auto
qed

lemma build_source_files_keys:
  "fst ` set (build_source_files fsl acc) = fst ` set acc \<union> (\<lambda>x. fs_basename (snd x)) ` set fsl"
proof (induction fsl arbitrary: acc)
  case Nil
  show ?case by simp
next
  case (Cons x fsl)
  obtain p e where x: "x = (p, e)" by (cases x)
  show ?case unfolding x by (simp add: Cons.IH dict_set_keys)
qed

lemma get_statistics_fields:
  assumes "get_statistics now st = Inr (Some s)"
  shows "files_processed s = length (file_list st)"
    and "source_files s = build_source_files (file_stats st) []"
    and "total_slow_queries s = length (queries st)"
  using assms
  by (auto simp: get_statistics_def Let_def split: if_splits sum.splits)

lemma parse_log_files_run:
  assumes "parse_log_files fs found (init inp) = Inr st'"
  shows "file_list st' = found"
    and "set (file_stats st') \<subseteq>
           {(p, file_entry fs p) | p. p \<in> set found \<and> slow_query_matches (fs p) \<noteq> []}"
proof -
  show "file_list st' = found"
  proof (cases "found = []")
    case True
    with assms show ?thesis by (auto simp: parse_log_files_def init_def)
  next
    case False
    with assms obtain t where "parse_files fs found ((init inp)\<lparr>file_list := found\<rparr>) 0 = Inr (st', t)"
      by (auto simp: parse_log_files_def Let_def split: sum.splits)
    from parse_files_file_list [OF this] show ?thesis by simp
  qed
  show "set (file_stats st') \<subseteq>
           {(p, file_entry fs p) | p. p \<in> set found \<and> slow_query_matches (fs p) \<noteq> []}"
  proof (cases "found = []")
    case True
    with assms show ?thesis by (auto simp: parse_log_files_def init_def)
  next
    case False
    with assms obtain t where "parse_files fs found ((init inp)\<lparr>file_list := found\<rparr>) 0 = Inr (st', t)"
      by (auto simp: parse_log_files_def Let_def split: sum.splits)
    from parse_files_entries [OF this] show ?thesis by (simp add: init_def)
  qed
qed

text \<open>
  Claim C9. A file whose text is empty or has no match makes \<open>parse_single_file\<close>
  return 0 and the state it was given, unchanged. After a run over a list of files
  that has such a file, \<^verbatim>\<open>file_stats\<close> has no entry for it, every key of the
  source-file breakdown is the base name of another file of the list, one with
  matches, and \<^verbatim>\<open>files_processed\<close> is the length of the whole list.
\<close>

theorem file_without_matches_is_skipped:
  assumes "fs p = [] \<or> slow_query_matches (fs p) = []"
  shows "parse_single_file fs p st = Inr (st, 0) \<and>
         (\<forall>found inp st'. p \<in> set found \<and> parse_log_files fs found (init inp) = Inr st' \<longrightarrow>
            dict_get (file_stats st') p = None \<and>
            (\<forall>now s. get_statistics now st' = Inr (Some s) \<longrightarrow>
               files_processed s = length found \<and>
               (\<forall>b\<in>fst ` set (source_files s).
                  \<exists>p'\<in>set found. p' \<noteq> p \<and> basename p' = b \<and> slow_query_matches (fs p') \<noteq> [])))"
proof (intro conjI allI impI)
  show "parse_single_file fs p st = Inr (st, 0)"
    using assms by (auto simp: parse_single_file_def Let_def)
next
  fix found inp st'
  assume a: "p \<in> set found \<and> parse_log_files fs found (init inp) = Inr st'"
  from assms have nomatch: "slow_query_matches (fs p) = []" by auto
  note run = parse_log_files_run [OF conjunct2 [OF a]]
  from run(2) nomatch have "p \<notin> fst ` set (file_stats st')" by auto
  then show "dict_get (file_stats st') p = None" by (simp add: dict_get_None_iff)
  fix now s assume g: "get_statistics now st' = Inr (Some s)"
  show "files_processed s = length found"
    using get_statistics_fields(1) [OF g] run(1) by simp
  show "\<forall>b\<in>fst ` set (source_files s).
          \<exists>p'\<in>set found. p' \<noteq> p \<and> basename p' = b \<and> slow_query_matches (fs p') \<noteq> []"
  proof
    fix b assume "b \<in> fst ` set (source_files s)"
    then obtain x where x: "x \<in> set (file_stats st')" and b: "b = fs_basename (snd x)"
      unfolding get_statistics_fields(2) [OF g] build_source_files_keys by auto
    from x run(2) obtain p' where p': "x = (p', file_entry fs p')" "p' \<in> set found"
      "slow_query_matches (fs p') \<noteq> []" by auto
    with nomatch have "p' \<noteq> p" by auto
    with p' b show "\<exists>p'\<in>set found. p' \<noteq> p \<and> basename p' = b \<and> slow_query_matches (fs p') \<noteq> []"
      by (auto simp: file_entry_def)
  qed
qed

theorem file_without_matches_is_skipped_witness:
  "parse_single_file example_files ''c/empty.log'' example_state = Inr (example_state, 0) \<and>
   dict_get (file_stats example_state) ''c/empty.log'' = None \<and>
   files_processed example_statistics = length example_paths \<and>
   (\<exists>p'\<in>set example_paths. p' \<noteq> ''c/empty.log'' \<and> basename p' = ''repository.log'' \<and>
       slow_query_matches (example_files p') \<noteq> [])"
proof -
  have h: "example_files ''c/empty.log'' = [] \<or>
           slow_query_matches (example_files ''c/empty.log'') = []"
    by (simp add: example_files_def)
  have p: "''c/empty.log'' \<in> set example_paths" by (simp add: example_paths_def)
  have k: "''repository.log'' \<in> fst ` set (source_files example_statistics)"
    by (simp add: example_statistics_def)
  from file_without_matches_is_skipped [of example_files "''c/empty.log''" example_state]
    h p example_files_run example_state_statistics k
  show ?thesis by blast
qed

lemma find_app:
  "find P (B @ C) = (case find P B of Some y \<Rightarrow> Some y | None \<Rightarrow> find P C)"
  by (induction B) simp_all

lemma find_skip:
  "(\<forall>y\<in>set B. \<not> P y) \<Longrightarrow> find P (B @ C) = find P C"
  by (induction B) simp_all

lemma build_source_files_get:
  "dict_get (build_source_files fsl acc) b =
     (case find (\<lambda>x. fs_basename (snd x) = b) (rev fsl) of
        Some x \<Rightarrow> Some (source_entry_of (snd x))
      | None \<Rightarrow> dict_get acc b)"
proof (induction fsl arbitrary: acc)
  case Nil
  show ?case by simp
next
  case (Cons x fsl)
  obtain p e where x: "x = (p, e)" by (cases x)
  show ?case
    unfolding x
    by (simp add: Cons.IH dict_get_dict_set find_app source_entry_of_def split: option.splits)
qed

lemma dict_set_distinct:
  "distinct (map fst d) \<Longrightarrow> distinct (map fst (dict_set k v d))"
  by (simp add: dict_set_map_fst)

lemma build_source_files_distinct:
  "distinct (map fst acc) \<Longrightarrow> distinct (map fst (build_source_files fsl acc))"
proof (induction fsl arbitrary: acc)
  case Nil
  then show ?case by simp
next
  case (Cons x fsl)
  obtain p e where x: "x = (p, e)" by (cases x)
  show ?case unfolding x using Cons.prems by (simp add: Cons.IH dict_set_distinct)
qed

lemma distinct_keys_one:
  "distinct (map fst l) \<Longrightarrow> b \<in> fst ` set l \<Longrightarrow> length (filter (\<lambda>e. fst e = b) l) = 1"
proof (induction l)
  case Nil
  then show ?case by simp
next
  case (Cons x l)
  show ?case
  proof (cases "fst x = b")
    case True
    with Cons.prems have "b \<notin> fst ` set l" by simp
    then have "\<forall>e\<in>set l. fst e \<noteq> b" by (auto simp: image_iff)
    then have "filter (\<lambda>e. fst e = b) l = []" by (simp add: filter_empty_conv)
    with True show ?thesis by simp
  next
    case False
    with Cons show ?thesis by auto
  qed
qed

lemma parse_files_exact:
  assumes "parse_files fs found st t = Inr (st', t')"
    and "distinct found" and "set found \<inter> fst ` set (file_stats st) = {}"
  shows "file_stats st' =
           file_stats st @ map (\<lambda>p. (p, file_entry fs p))
                              (filter (\<lambda>p. slow_query_matches (fs p) \<noteq> []) found)"
  using assms
proof (induction found arbitrary: st t)
  case Nil
  then show ?case by simp
next
  case (Cons p found)
  from Cons.prems(1) obtain st1 n1 where
    one: "parse_single_file fs p st = Inr (st1, n1)" and
    rest: "parse_files fs found st1 (t + n1) = Inr (st', t')"
    by (auto split: sum.splits)
  from Cons.prems(3) have fresh: "p \<notin> fst ` set (file_stats st)" by auto
  have st1: "file_stats st1 = (if slow_query_matches (fs p) = [] then file_stats st
                               else file_stats st @ [(p, file_entry fs p)])"
    using parse_single_file_fields(2) [OF one] dict_set_fresh [OF fresh] by simp
  have disj: "set found \<inter> fst ` set (file_stats st1) = {}"
    using Cons.prems(2,3) by (auto simp: st1)
  from Cons.IH [OF rest _ disj] Cons.prems(2) show ?case by (simp add: st1)
qed

lemma parse_files_count:
  "parse_files fs found st t = Inr (st', t') \<Longrightarrow>
     length (queries st') =
       length (queries st) + (\<Sum>p\<leftarrow>found. length (slow_query_matches (fs p)))"
proof (induction found arbitrary: st t)
  case Nil
  then show ?case by simp
next
  case (Cons p found)
  from Cons.prems(1) obtain st1 n1 where
    one: "parse_single_file fs p st = Inr (st1, n1)" and
    rest: "parse_files fs found st1 (t + n1) = Inr (st', t')"
    by (auto split: sum.splits)
  from parse_single_file_fields(4) [OF one] obtain qs where
    qs: "collect (make_query_info p) (slow_query_matches (fs p)) = Inr qs"
    and q1: "queries st1 = queries st @ qs" by blast
  from collect_length [OF qs] q1 Cons.IH [OF rest] show ?case by simp
qed

lemma parse_log_files_exact:
  assumes "parse_log_files fs found (init inp) = Inr st" and "distinct found"
  shows "file_stats st = map (\<lambda>p. (p, file_entry fs p))
                             (filter (\<lambda>p. slow_query_matches (fs p) \<noteq> []) found)"
    and "length (queries st) = (\<Sum>p\<leftarrow>found. length (slow_query_matches (fs p)))"
proof -
  show "file_stats st = map (\<lambda>p. (p, file_entry fs p))
                             (filter (\<lambda>p. slow_query_matches (fs p) \<noteq> []) found)"
  proof (cases "found = []")
    case True
    with assms show ?thesis by (auto simp: parse_log_files_def init_def)
  next
    case False
    with assms obtain t where "parse_files fs found ((init inp)\<lparr>file_list := found\<rparr>) 0 = Inr (st, t)"
      by (auto simp: parse_log_files_def Let_def split: sum.splits)
    from parse_files_exact [OF this assms(2)] show ?thesis by (simp add: init_def)
  qed
  show "length (queries st) = (\<Sum>p\<leftarrow>found. length (slow_query_matches (fs p)))"
  proof (cases "found = []")
    case True
    with assms show ?thesis by (auto simp: parse_log_files_def init_def)
  next
    case False
    with assms obtain t where "parse_files fs found ((init inp)\<lparr>file_list := found\<rparr>) 0 = Inr (st, t)"
      by (auto simp: parse_log_files_def Let_def split: sum.splits)
    from parse_files_count [OF this] show ?thesis by (simp add: init_def)
  qed
qed

text \<open>
  Claim C10. The source-file breakdown is keyed by base name. When two files of a run
  (of distinct paths, \<open>p1\<close> processed before \<open>p2\<close>) have matches and the same base
  name, and no later file with matches has that name, the one entry of the
  breakdown under that name holds the count and the size of \<open>p2\<close>, although
  \<^verbatim>\<open>file_stats\<close> has an entry for each of the two paths and
  \<^verbatim>\<open>total_slow_queries\<close> counts the records of every file.
\<close>

theorem same_basename_overwrites:
  assumes "distinct found"
    and "found = xs @ p1 # ys @ p2 # zs"
    and "basename p1 = basename p2"
    and "slow_query_matches (fs p1) \<noteq> []" and "slow_query_matches (fs p2) \<noteq> []"
    and "\<forall>p\<in>set zs. basename p = basename p2 \<longrightarrow> slow_query_matches (fs p) = []"
    and "parse_log_files fs found (init inp) = Inr st"
    and "get_statistics now st = Inr (Some s)"
  shows "dict_get (source_files s) (basename p1) =
           Some \<lparr>se_queries = length (slow_query_matches (fs p2)), se_file_size = length (fs p2)\<rparr> \<and>
         length (filter (\<lambda>e. fst e = basename p1) (source_files s)) = 1 \<and>
         dict_get (file_stats st) p1 = Some (file_entry fs p1) \<and>
         dict_get (file_stats st) p2 = Some (file_entry fs p2) \<and>
         total_slow_queries s = (\<Sum>p\<leftarrow>found. length (slow_query_matches (fs p))) \<and>
         length (slow_query_matches (fs p1)) + length (slow_query_matches (fs p2)) \<le> total_slow_queries s"
proof -
  let ?c = "\<lambda>p. slow_query_matches (fs p) \<noteq> []"
  let ?e = "\<lambda>p. (p, file_entry fs p)"
  let ?P = "\<lambda>x. fs_basename (snd x) = basename p1"
  note ex = parse_log_files_exact [OF assms(7) assms(1)]
  note sf = get_statistics_fields(2) [OF assms(8)]
  have stats: "file_stats st =
      (map ?e (filter ?c xs) @ ?e p1 # map ?e (filter ?c ys)) @ ?e p2 # map ?e (filter ?c zs)"
    unfolding ex(1) assms(2) using assms(4,5) by simp
  have skip: "\<forall>y\<in>set (rev (map ?e (filter ?c zs))). \<not> ?P y"
    using assms(3,6) by (auto simp: file_entry_def)
  have "find ?P (rev (file_stats st)) = Some (?e p2)"
    unfolding stats using find_skip [OF skip] assms(3) by (simp add: file_entry_def)
  then have get: "dict_get (source_files s) (basename p1) =
           Some \<lparr>se_queries = length (slow_query_matches (fs p2)), se_file_size = length (fs p2)\<rparr>"
    unfolding sf build_source_files_get by (simp add: source_entry_of_def file_entry_def)
  have d: "distinct (map fst (source_files s))"
    unfolding sf by (rule build_source_files_distinct) simp
  from get have "basename p1 \<in> fst ` set (source_files s)"
    by (metis dict_get_None_iff option.distinct(1))
  from distinct_keys_one [OF d this]
  have one: "length (filter (\<lambda>e. fst e = basename p1) (source_files s)) = 1" .
  have dk: "distinct (map fst (file_stats st))"
    unfolding ex(1) using assms(1) by (simp add: comp_def distinct_map_filter)
  have "?e p1 \<in> set (file_stats st)" "?e p2 \<in> set (file_stats st)"
    unfolding stats by simp_all
  with dk have g1: "dict_get (file_stats st) p1 = Some (file_entry fs p1)"
    and g2: "dict_get (file_stats st) p2 = Some (file_entry fs p2)"
    by (simp_all add: dict_get_def)
  have tot: "total_slow_queries s = (\<Sum>p\<leftarrow>found. length (slow_query_matches (fs p)))"
    using get_statistics_fields(3) [OF assms(8)] ex(2) by simp
  have "length (slow_query_matches (fs p1)) + length (slow_query_matches (fs p2)) \<le> total_slow_queries s"
    unfolding tot assms(2) by simp
  with get one g1 g2 tot show ?thesis by blast
qed

theorem same_basename_overwrites_witness:
  "dict_get (source_files example_statistics) (basename ''a/repository.log'') =
     Some \<lparr>se_queries = 1, se_file_size = 95\<rparr> \<and>
   length (filter (\<lambda>e. fst e = basename ''a/repository.log'') (source_files example_statistics)) = 1 \<and>
   dict_get (file_stats example_state) ''a/repository.log'' =
     Some (file_entry example_files ''a/repository.log'') \<and>
   dict_get (file_stats example_state) ''b/repository.log'' =
     Some (file_entry example_files ''b/repository.log'') \<and>
   total_slow_queries example_statistics = 2"
proof -
  have d: "distinct example_paths" by (simp add: example_paths_def)
  have f: "example_paths = [] @ ''a/repository.log'' # [] @ ''b/repository.log'' # [''c/empty.log'']"
    by (simp add: example_paths_def)
  have b: "basename ''a/repository.log'' = basename ''b/repository.log''"
    by (simp add: basename_def)
  have m1: "slow_query_matches (example_files ''a/repository.log'') \<noteq> []"
    by (simp add: example_files_def example_log_matches)
  have m2: "slow_query_matches (example_files ''b/repository.log'') \<noteq> []"
    by (simp add: example_files_def example_log2_matches)
  have z: "\<forall>p\<in>set [''c/empty.log'']. basename p = basename ''b/repository.log'' \<longrightarrow>
             slow_query_matches (example_files p) = []"
    by (simp add: example_files_def)
  have v1: "length (slow_query_matches (example_files ''b/repository.log'')) = 1"
    by (simp add: example_files_def example_log2_matches)
  have v2: "length (example_files ''b/repository.log'') = 95"
    by (simp add: example_files_def example_log2_def)
  have t: "total_slow_queries example_statistics = 2" by (simp add: example_statistics_def)
  from same_basename_overwrites [OF d f b m1 m2 z example_files_run example_state_statistics]
  show ?thesis unfolding v1 v2 using t by simp
qed

section \<open>The extractor on the example and on every text\<close>

lemma findall_nonempty:
  "match_items dotall p t \<noteq> None \<Longrightarrow> findall dotall p (a @ t) \<noteq> []"
  by (auto simp: findall_Nil_iff)

lemma slow_query_pattern_ok:
  assumes "list_all2 (item_ok True) timestamp_items tsegs"
    and "ds \<noteq> []" and "list_all is_digit ds" and "list_all (\<lambda>c. c \<noteq> CHR 0x27) q"
  shows "list_all2 (item_ok True) slow_query_pattern
           (tsegs @ [gap1, ''SlowQuery: '', ds, '' milliseconds. SQL: '' @ [CHR 0x27], gap2,
                     ''wrapping '', q, [CHR 0x27]])"
  unfolding slow_query_pattern_def
  using assms(2-4) by (intro list_all2_appendI [OF assms(1)]) (simp add: list_all_iff)

lemma entry_is_found:
  assumes "list_all2 (item_ok True) timestamp_items tsegs"
    and "ds \<noteq> []" and "list_all is_digit ds" and "list_all (\<lambda>c. c \<noteq> CHR 0x27) q"
  shows "slow_query_matches
           (pre @ concat tsegs @ gap1 @ ''SlowQuery: '' @ ds @ '' milliseconds. SQL: '' @ [CHR 0x27] @
            gap2 @ ''wrapping '' @ q @ [CHR 0x27] @ post) \<noteq> []"
proof -
  let ?segs = "tsegs @ [gap1, ''SlowQuery: '', ds, '' milliseconds. SQL: '' @ [CHR 0x27], gap2,
                     ''wrapping '', q, [CHR 0x27]]"
  from match_items_complete [OF slow_query_pattern_ok [OF assms, of gap1 gap2], of post]
  have "match_items True slow_query_pattern (concat ?segs @ post) \<noteq> None" .
  from findall_nonempty [OF this, of pre]
  show ?thesis by (simp add: slow_query_matches_def)
qed

lemma classify_example: "extract_operation_and_table ''select * from foo'' = (''SELECT'', ''foo'')"
  by code_simp

lemma strip_example: "strip ''select * from foo'' = ''select * from foo''"
  by code_simp

lemma py_int_example: "py_int ''1500'' = Inr 1500"
  by (simp add: py_int_def is_digit_def digits_def digit_val_def)

lemma example_log_record:
  "\<exists>st q. parse_single_file (\<lambda>p. example_log) file_path (init inp) = Inr (st, 1) \<and>
          queries st = [q] \<and> execution_time q = 1500 \<and> table q = ''foo''"
proof -
  from parse_single_file_eq [of file_path "\<lambda>p. example_log" "init inp"] obtain qs where
    qs: "collect (make_query_info file_path) (slow_query_matches example_log) = Inr qs" and
    eq: "parse_single_file (\<lambda>p. example_log) file_path (init inp) =
          Inr (if slow_query_matches example_log = [] then init inp
               else (foldl (\<lambda>s q. ingest q s) (init inp) qs)
                      \<lparr>file_stats := dict_set file_path (file_entry (\<lambda>p. example_log) file_path)
                                       (file_stats (init inp))\<rparr>,
               length qs)"
    by blast
  from qs obtain q where q: "qs = [q]" "execution_time q = 1500" "table q = ''foo''"
    by (auto simp: example_log_matches classify_example strip_example py_int_example Let_def)
  show ?thesis unfolding eq
    by (simp add: example_log_matches q init_def foldl_ingest_frame)
qed

text \<open>
  Claim C4. The log line of the example yields exactly one record, with execution time
  1500 and table \<^verbatim>\<open>foo\<close>; a text that does not contain \<^verbatim>\<open>SlowQuery:\<close> yields no match;
  and an entry is found wherever it stands in the text of the file and whatever the
  two spans between its parts are made of, line feeds included: any text
  \<open>pre\<close>, a time stamp, any text \<open>gap1\<close>, the marker with digits, any text
  \<open>gap2\<close>, \<^verbatim>\<open>wrapping\<close>, a statement without a quote, a quote, any text \<open>post\<close>.
\<close>

theorem extractor_boundary:
  "(\<exists>st q. parse_single_file (\<lambda>p. example_log) file_path (init inp) = Inr (st, 1) \<and>
          queries st = [q] \<and> execution_time q = 1500 \<and> table q = ''foo'') \<and>
   (\<forall>content. \<not> contains content ''SlowQuery:'' \<longrightarrow> slow_query_matches content = []) \<and>
   (\<forall>pre tsegs gap1 ds gap2 q post.
      list_all2 (item_ok True) timestamp_items tsegs \<and> ds \<noteq> [] \<and> list_all is_digit ds \<and>
      list_all (\<lambda>c. c \<noteq> CHR 0x27) q \<longrightarrow>
      slow_query_matches
        (pre @ concat tsegs @ gap1 @ ''SlowQuery: '' @ ds @ '' milliseconds. SQL: '' @ [CHR 0x27] @
         gap2 @ ''wrapping '' @ q @ [CHR 0x27] @ post) \<noteq> [])"
  using example_log_record no_marker_no_matches entry_is_found by blast

theorem extractor_boundary_witness:
  "\<not> contains ''2024-01-01 10:00:00.123 Query: 5 milliseconds'' ''SlowQuery:'' \<and>
   slow_query_matches ''2024-01-01 10:00:00.123 Query: 5 milliseconds'' = [] \<and>
   slow_query_matches example_log2 \<noteq> []"
proof -
  have n: "\<not> contains ''2024-01-01 10:00:00.123 Query: 5 milliseconds'' ''SlowQuery:''"
    by code_simp
  have t: "list_all2 (item_ok True) timestamp_items
             [''2024'', ''-'', ''01'', ''-'', ''02'', '' '', ''11'', '':'', ''30'', '':'', ''00'', ''.'', ''000'']"
    by (simp add: timestamp_items_def is_digit_def digits_def)
  have d: "''20'' \<noteq> [] \<and> list_all is_digit ''20'' \<and>
           list_all (\<lambda>c. c \<noteq> CHR 0x27) '' update bar set a=1 ''"
    by (simp add: is_digit_def digits_def)
  have e: "example_log2 =
        [] @ concat [''2024'', ''-'', ''01'', ''-'', ''02'', '' '', ''11'', '':'', ''30'', '':'', ''00'', ''.'', ''000''] @
        ('' WARN'' @ [CHR 0x0A]) @ ''SlowQuery: '' @ ''20'' @ '' milliseconds. SQL: '' @ [CHR 0x27] @
        (''x'' @ [CHR 0x0A]) @ ''wrapping '' @ '' update bar set a=1 '' @ [CHR 0x27] @ []"
    by (simp add: example_log2_def)
  from extractor_boundary [of "''x''" "''y''"] n t d
  show ?thesis unfolding e by blast
qed

section \<open>The statement a record keeps\<close>








section \<open>Statistics of a run\<close>








section \<open>Groups against the flat sequence, and the stable descending sort\<close>























section \<open>The rankings of groups\<close>






lemma example_top_by_total_time: "get_top_k_by_total_time example_state 10 = Inr example_top"
  unfolding example_state_def example_record_def example_record2_def example_top_def
  by code_simp


section \<open>Order and length of the rankings\<close>









section \<open>The classifier against its description\<close>























section \<open>Records: derived fields, group keys and append-only ingestion\<close>















end
